theory Spec2Isabelle
  imports Complex_Main "HOL-Library.Sublist" "HOL-Library.Log_Nat"
begin

section \<open>Floating-point numbers\<close>

text \<open>
  The program is \<^verbatim>\<open>main.py\<close>: a bank account (\<^verbatim>\<open>Account\<close>), a credit account
  (\<^verbatim>\<open>CreditAccount\<close>) derived from it, and the frozen dataclass \<^verbatim>\<open>Operation\<close> of the
  entries of an account's history. Balances, amounts and credit limits are Python
  \<^verbatim>\<open>float\<close>s, that is IEEE-754 binary64 numbers, and the program compares and adds them
  as such, so they are modelled bit for bit.

  A finite double is its sign and its magnitude counted in units of \<^verbatim>\<open>2**-1074\<close>, the
  smallest positive double: \<open>Finite s n\<close> stands for \<open>n\<close> such units, negated when \<open>s\<close>
  holds, so \<open>Finite True 0\<close> is \<^verbatim>\<open>-0.0\<close>, and \<open>scale\<close> units make \<^verbatim>\<open>1.0\<close>.
  \<open>Infinite s\<close> is \<^verbatim>\<open>inf\<close> or \<^verbatim>\<open>-inf\<close>, and \<open>NaN\<close> is \<^verbatim>\<open>nan\<close>. The magnitudes that
  doubles have are the \<open>representable\<close> ones: below \<^verbatim>\<open>2**1024\<close> and of at most 53
  significant bits (\<open>floorlog 2 n\<close> is the number of bits of \<open>n\<close>).

  \<open>round_even\<close> is the rounding of every operation: to the nearest representable
  magnitude, and of two equally near ones to the one with the even significand. A result
  that rounds to \<^verbatim>\<open>2**1024\<close> or more is infinite (\<open>nearest\<close>). \<open>dadd\<close>, \<open>dsub\<close> and
  \<open>dneg\<close> are \<^verbatim>\<open>+\<close>, binary \<^verbatim>\<open>-\<close> and unary \<^verbatim>\<open>-\<close>; \<open>dlt\<close> and \<open>dle\<close> are \<^verbatim>\<open><\<close> and
  \<^verbatim>\<open><=\<close>, both false as soon as an operand is \<^verbatim>\<open>nan\<close>. \<open>dint i\<close> is the double nearest
  to the integer \<open>i\<close>, and \<open>whole s a\<close> the double of the whole number \<open>a\<close> with sign \<open>s\<close>.
\<close>

datatype double = Finite bool nat | Infinite bool | NaN

definition scale :: nat where
  "scale = 2 ^ 1074"

definition representable :: "nat \<Rightarrow> bool" where
  "representable n \<longleftrightarrow>
     n < 2 ^ 1024 * scale \<and> (n < 2 ^ 53 \<or> n mod 2 ^ (floorlog 2 n - 53) = 0)"

definition round_even :: "nat \<Rightarrow> nat" where
  "round_even n =
     (if n < 2 ^ 53 then n
      else
        (let k = floorlog 2 n - 53; q = n div 2 ^ k; r = n mod 2 ^ k; half = 2 ^ (k - 1)
         in (if half < r \<or> (r = half \<and> odd q) then q + 1 else q) * 2 ^ k))"

definition nearest :: "bool \<Rightarrow> nat \<Rightarrow> double" where
  "nearest s n = (let r = round_even n in if r < 2 ^ 1024 * scale then Finite s r else Infinite s)"

definition signed :: "bool \<Rightarrow> nat \<Rightarrow> int" where
  "signed s n = (if s then - int n else int n)"

fun dneg :: "double \<Rightarrow> double" where
  "dneg (Finite s n) = Finite (\<not> s) n"
| "dneg (Infinite s) = Infinite (\<not> s)"
| "dneg NaN = NaN"

fun dadd :: "double \<Rightarrow> double \<Rightarrow> double" where
  "dadd NaN y = NaN"
| "dadd (Finite s n) NaN = NaN"
| "dadd (Infinite s) NaN = NaN"
| "dadd (Infinite s) (Infinite t) = (if s = t then Infinite s else NaN)"
| "dadd (Infinite s) (Finite t m) = Infinite s"
| "dadd (Finite s n) (Infinite t) = Infinite t"
| "dadd (Finite s n) (Finite t m) =
     (let i = signed s n + signed t m
      in if i = 0 then Finite (s \<and> t) 0 else nearest (i < 0) (nat \<bar>i\<bar>))"

definition dsub :: "double \<Rightarrow> double \<Rightarrow> double" where
  "dsub x y = dadd x (dneg y)"

fun dlt :: "double \<Rightarrow> double \<Rightarrow> bool" where
  "dlt NaN y = False"
| "dlt (Finite s n) NaN = False"
| "dlt (Infinite s) NaN = False"
| "dlt (Infinite s) (Infinite t) = (s \<and> \<not> t)"
| "dlt (Infinite s) (Finite t m) = s"
| "dlt (Finite s n) (Infinite t) = (\<not> t)"
| "dlt (Finite s n) (Finite t m) = (signed s n < signed t m)"

fun dle :: "double \<Rightarrow> double \<Rightarrow> bool" where
  "dle NaN y = False"
| "dle (Finite s n) NaN = False"
| "dle (Infinite s) NaN = False"
| "dle (Infinite s) (Infinite t) = (s \<or> \<not> t)"
| "dle (Infinite s) (Finite t m) = s"
| "dle (Finite s n) (Infinite t) = (\<not> t)"
| "dle (Finite s n) (Finite t m) = (signed s n \<le> signed t m)"

definition dzero :: double where
  "dzero = Finite False 0"

definition whole :: "bool \<Rightarrow> nat \<Rightarrow> double" where
  "whole s a = Finite s (a * scale)"

definition dint :: "int \<Rightarrow> double" where
  "dint i = nearest (i < 0) (nat \<bar>i\<bar> * scale)"

fun is_nan :: "double \<Rightarrow> bool" where
  "is_nan NaN = True"
| "is_nan (Finite s n) = False"
| "is_nan (Infinite s) = False"

fun is_double :: "double \<Rightarrow> bool" where
  "is_double (Finite s n) = representable n"
| "is_double (Infinite s) = True"
| "is_double NaN = True"

fun is_inf :: "double \<Rightarrow> bool" where
  "is_inf (Infinite s) = True"
| "is_inf (Finite s n) = False"
| "is_inf NaN = False"

fun is_zero :: "double \<Rightarrow> bool" where
  "is_zero (Finite s n) = (n = 0)"
| "is_zero (Infinite s) = False"
| "is_zero NaN = False"

section \<open>Python values\<close>

text \<open>
  A \<^verbatim>\<open>str\<close> is the list of its code points. The arguments of the constructors and of
  \<^verbatim>\<open>deposit\<close>/\<^verbatim>\<open>withdraw\<close> are untyped in Python, so they are values of \<open>pyval\<close>. The
  numbers among them, those that \<^verbatim>\<open>isinstance(v, (int, float))\<close> accepts, are the
  \<open>pynum\<close>: \<^verbatim>\<open>bool\<close> is a subclass of \<^verbatim>\<open>int\<close>, an \<^verbatim>\<open>int\<close> is unbounded, and
  \<^verbatim>\<open>nan\<close> and the infinities are \<^verbatim>\<open>float\<close>s. A \<open>PyFloat d\<close> is a Python value when \<open>d\<close>
  is a double (\<open>wellformed\<close>).
\<close>

type_synonym pystr = "nat list"

datatype pynum = PyBool bool | PyInt int | PyFloat double

datatype pyval = PyNone | PyStr pystr | PyNum pynum

text \<open>\<^verbatim>\<open>isinstance(v, (int, float))\<close>, and the number where it holds.\<close>

fun as_number :: "pyval \<Rightarrow> pynum option" where
  "as_number (PyNum n) = Some n"
| "as_number PyNone = None"
| "as_number (PyStr s) = None"

text \<open>\<^verbatim>\<open>isinstance(v, str)\<close>, and the string where it holds.\<close>

fun as_str :: "pyval \<Rightarrow> pystr option" where
  "as_str (PyStr s) = Some s"
| "as_str PyNone = None"
| "as_str (PyNum n) = None"

fun wellformed :: "pyval \<Rightarrow> bool" where
  "wellformed (PyNum (PyFloat d)) = is_double d"
| "wellformed (PyNum (PyInt i)) = True"
| "wellformed (PyNum (PyBool b)) = True"
| "wellformed PyNone = True"
| "wellformed (PyStr s) = True"

text \<open>The code points \<^verbatim>\<open>str.strip()\<close> removes (those \<^verbatim>\<open>str.isspace\<close> accepts).\<close>

definition isspace :: "nat \<Rightarrow> bool" where
  "isspace c \<longleftrightarrow>
     (9 \<le> c \<and> c \<le> 13) \<or> (28 \<le> c \<and> c \<le> 32) \<or> c = 133 \<or> c = 160 \<or> c = 5760 \<or>
     (8192 \<le> c \<and> c \<le> 8202) \<or> c = 8232 \<or> c = 8233 \<or> c = 8239 \<or> c = 8287 \<or> c = 12288"

definition strip :: "pystr \<Rightarrow> pystr" where
  "strip s = rev (dropWhile isspace (rev (dropWhile isspace s)))"

subsection \<open>Exceptions\<close>

text \<open>
  A raised exception is its class and which message it carries (the program's messages
  are Russian sentences; each is named here by what it says).
  \<open>int_too_large_for_float\<close> is the message of the \<^verbatim>\<open>OverflowError\<close> that \<^verbatim>\<open>float(i)\<close>
  raises on an \<^verbatim>\<open>int\<close> whose nearest double would be infinite, and
  \<open>asdict_needs_dataclass\<close> that of the \<^verbatim>\<open>TypeError\<close> that \<^verbatim>\<open>dataclasses.asdict\<close>
  raises on an object that is no dataclass instance.
\<close>

datatype exception_class = TypeError | ValueError | OverflowError

datatype message =
    holder_must_be_nonempty_str
  | balance_must_be_number
  | initial_balance_negative
  | amount_must_be_number
  | amount_must_be_positive
  | credit_limit_must_be_number
  | credit_limit_negative
  | initial_balance_below_limit
  | int_too_large_for_float
  | asdict_needs_dataclass

datatype error = Raise exception_class message

fun error_class :: "error \<Rightarrow> exception_class" where
  "error_class (Raise c m) = c"

subsection \<open>Conversion and comparison of numbers\<close>

text \<open>
  \<^verbatim>\<open>float(v)\<close> of a number: a \<^verbatim>\<open>float\<close> is returned as it is, an \<^verbatim>\<open>int\<close> is rounded
  to the nearest double, and \<^verbatim>\<open>OverflowError\<close> is raised when that is out of range.
\<close>

fun float_of :: "pynum \<Rightarrow> error + double" where
  "float_of (PyBool b) = Inr (dint (if b then 1 else 0))"
| "float_of (PyInt i) =
     (if is_inf (dint i) then Inl (Raise OverflowError int_too_large_for_float)
      else Inr (dint i))"
| "float_of (PyFloat d) = Inr d"

text \<open>\<^verbatim>\<open>v < 0\<close> of a number as it was passed: Python compares an \<^verbatim>\<open>int\<close> exactly.\<close>

fun less_than_zero :: "pynum \<Rightarrow> bool" where
  "less_than_zero (PyBool b) = False"
| "less_than_zero (PyInt i) = (i < 0)"
| "less_than_zero (PyFloat d) = dlt d dzero"

subsection \<open>Timestamps\<close>

text \<open>
  A naive \<^verbatim>\<open>datetime\<close>. \<^verbatim>\<open>datetime.now()\<close> reads the clock, so every operation that
  records an entry takes the reading as its argument \<open>now\<close>.
\<close>

record datetime =
  year :: nat
  month :: nat
  day :: nat
  hour :: nat
  minute :: nat
  second :: nat
  microsecond :: nat

text \<open>The decimal digits of \<open>n\<close>, padded with zeros to \<open>w\<close> places (\<^verbatim>\<open>%0wd\<close>).\<close>

fun zero_pad :: "nat \<Rightarrow> nat \<Rightarrow> pystr" where
  "zero_pad 0 n = []"
| "zero_pad (Suc w) n = zero_pad w (n div 10) @ [48 + n mod 10]"

text \<open>\<^verbatim>\<open>dt.isoformat(sep=" ", timespec="seconds")\<close>: \<^verbatim>\<open>YYYY-MM-DD HH:MM:SS\<close>.\<close>

definition isoformat :: "datetime \<Rightarrow> pystr" where
  "isoformat dt =
     zero_pad 4 (year dt) @ [45] @ zero_pad 2 (month dt) @ [45] @ zero_pad 2 (day dt) @ [32] @
     zero_pad 2 (hour dt) @ [58] @ zero_pad 2 (minute dt) @ [58] @ zero_pad 2 (second dt)"

section \<open>Operations and the store of lists\<close>

text \<open>
  \<^verbatim>\<open>op_type\<close> is one of the strings \<^verbatim>\<open>'deposit'\<close>, \<^verbatim>\<open>'withdraw'\<close> and \<^verbatim>\<open>status\<close> one
  of \<^verbatim>\<open>'success'\<close>, \<^verbatim>\<open>'fail'\<close>; \<^verbatim>\<open>credit_used\<close> is \<^verbatim>\<open>Optional[bool]\<close>.
  An \<^verbatim>\<open>Operation\<close> holds its timestamp as a \<^verbatim>\<open>datetime\<close>; the dictionary that
  \<^verbatim>\<open>get_history\<close> makes of it has the same keys, with the timestamp as text.
\<close>

datatype op_kind = Deposit | Withdraw

datatype op_status = Success | Fail

record 'ts op_fields =
  op_type :: op_kind
  amount :: double
  timestamp :: 'ts
  balance_after :: double
  status :: op_status
  credit_used :: "bool option"

type_synonym operation = "datetime op_fields"

type_synonym history_row = "pystr op_fields"

text \<open>
  Python lists are mutable objects reached through references, and \<^verbatim>\<open>get_history\<close>
  hands a list to its caller, so lists live in a store: \<open>cells h a\<close> is the content of
  the list at address \<open>a\<close>, and the addresses below \<open>next_addr h\<close> are the allocated
  ones. An element of a list is an \<^verbatim>\<open>Operation\<close> or a dictionary of \<^verbatim>\<open>get_history\<close>.
\<close>

datatype pyelem = OperationObj operation | DictObj history_row

record heap =
  cells :: "nat \<Rightarrow> pyelem list"
  next_addr :: nat

text \<open>\<^verbatim>\<open>[]\<close>: a new, empty list.\<close>

definition new_list :: "heap \<Rightarrow> nat \<times> heap" where
  "new_list h =
     (next_addr h, h\<lparr>cells := (cells h)(next_addr h := []), next_addr := Suc (next_addr h)\<rparr>)"

text \<open>\<^verbatim>\<open>xs.append(x)\<close> on the list at address \<open>a\<close>.\<close>

definition list_append :: "heap \<Rightarrow> nat \<Rightarrow> pyelem \<Rightarrow> heap" where
  "list_append h a x = h\<lparr>cells := (cells h)(a := cells h a @ [x])\<rparr>"

section \<open>Account\<close>

record account =
  holder :: pystr
  balance :: double
  operations_history :: nat

text \<open>
  \<^verbatim>\<open>Account.__init__(account_holder, balance)\<close>. The test \<^verbatim>\<open>balance < 0\<close> is made on
  the argument as passed, and \<^verbatim>\<open>float(balance)\<close> after it.
\<close>

definition Account_init :: "heap \<Rightarrow> pyval \<Rightarrow> pyval \<Rightarrow> error + (heap \<times> account)" where
  "Account_init h account_holder balance0 =
     (case as_str account_holder of
        None \<Rightarrow> Inl (Raise ValueError holder_must_be_nonempty_str)
      | Some s \<Rightarrow>
          if strip s = [] then Inl (Raise ValueError holder_must_be_nonempty_str)
          else
            (case as_number balance0 of
               None \<Rightarrow> Inl (Raise TypeError balance_must_be_number)
             | Some n \<Rightarrow>
                 if less_than_zero n then Inl (Raise ValueError initial_balance_negative)
                 else
                   (case float_of n of
                      Inl e \<Rightarrow> Inl e
                    | Inr b \<Rightarrow>
                        (let (a, h') = new_list h
                         in Inr (h', \<lparr>holder = strip s, balance = b,
                                       operations_history = a\<rparr>)))))"

text \<open>
  \<^verbatim>\<open>_add_operation\<close>: the entry records the balance the account has when the entry is
  made (\<^verbatim>\<open>float\<close> of a \<^verbatim>\<open>float\<close> is the same number). \<^verbatim>\<open>CreditAccount\<close> inherits the
  method, so it is defined on every extension of the record.
\<close>

definition add_operation ::
  "datetime \<Rightarrow> heap \<Rightarrow> 'a account_scheme \<Rightarrow> op_kind \<Rightarrow> double \<Rightarrow> op_status \<Rightarrow> bool option \<Rightarrow> heap" where
  "add_operation now h self ty amt st cu =
     list_append h (operations_history self)
       (OperationObj \<lparr>op_type = ty, amount = amt, timestamp = now,
                      balance_after = balance self, status = st, credit_used = cu\<rparr>)"

text \<open>
  \<^verbatim>\<open>_validate_amount\<close>: the \<^verbatim>\<open>isinstance\<close> test, then \<^verbatim>\<open>float(amount)\<close>, then
  \<^verbatim>\<open>amount <= 0\<close> on the double.
\<close>

definition validate_amount :: "pyval \<Rightarrow> error + double" where
  "validate_amount amount0 =
     (case as_number amount0 of
        None \<Rightarrow> Inl (Raise TypeError amount_must_be_number)
      | Some n \<Rightarrow>
          (case float_of n of
             Inl e \<Rightarrow> Inl e
           | Inr a \<Rightarrow>
               if dle a dzero then Inl (Raise ValueError amount_must_be_positive) else Inr a))"

text \<open>
  \<^verbatim>\<open>Account.deposit\<close> and \<^verbatim>\<open>Account.withdraw\<close>. A call ends by raising or by
  returning a \<^verbatim>\<open>bool\<close>; either way the store and the account object are left in some
  state, so the result is the outcome together with the store and the account after the
  call. \<^verbatim>\<open>amount > self._balance\<close> is \<^verbatim>\<open>self._balance < amount\<close>.
\<close>

definition Account_deposit ::
  "datetime \<Rightarrow> heap \<Rightarrow> account \<Rightarrow> pyval \<Rightarrow> (error + bool) \<times> heap \<times> account" where
  "Account_deposit now h self amount0 =
     (case validate_amount amount0 of
        Inl e \<Rightarrow> (Inl e, h, self)
      | Inr a \<Rightarrow>
          (let self' = self\<lparr>balance := dadd (balance self) a\<rparr>
           in (Inr True, add_operation now h self' Deposit a Success None, self')))"

definition Account_withdraw ::
  "datetime \<Rightarrow> heap \<Rightarrow> account \<Rightarrow> pyval \<Rightarrow> (error + bool) \<times> heap \<times> account" where
  "Account_withdraw now h self amount0 =
     (case validate_amount amount0 of
        Inl e \<Rightarrow> (Inl e, h, self)
      | Inr a \<Rightarrow>
          if dlt (balance self) a then
            (Inr False, add_operation now h self Withdraw a Fail None, self)
          else
            (let self' = self\<lparr>balance := dsub (balance self) a\<rparr>
             in (Inr True, add_operation now h self' Withdraw a Success None, self')))"

definition get_balance :: "'a account_scheme \<Rightarrow> double" where
  "get_balance self = balance self"

text \<open>
  \<^verbatim>\<open>get_history\<close>. \<open>row_of\<close> is \<^verbatim>\<open>asdict(op)\<close> with the timestamp replaced by its text.
  The call makes the new list \<^verbatim>\<open>history\<close>, appends one row to it per entry of the
  account's list, and returns its address; \<^verbatim>\<open>asdict\<close> raises on an element that is no
  dataclass instance. The method assigns to no attribute of \<^verbatim>\<open>self\<close>. The loop runs
  over the content the account's list has when the loop starts: the list it appends to is
  the new one, another object than the account's list whenever that one is allocated.
\<close>

definition row_of :: "operation \<Rightarrow> history_row" where
  "row_of op = \<lparr>op_type = op_type op, amount = amount op, timestamp = isoformat (timestamp op),
               balance_after = balance_after op, status = status op,
               credit_used = credit_used op\<rparr>"

fun get_history_loop :: "pyelem list \<Rightarrow> nat \<Rightarrow> heap \<Rightarrow> (error + unit) \<times> heap" where
  "get_history_loop [] history h = (Inr (), h)"
| "get_history_loop (OperationObj op # rest) history h =
     get_history_loop rest history (list_append h history (DictObj (row_of op)))"
| "get_history_loop (DictObj d # rest) history h =
     (Inl (Raise TypeError asdict_needs_dataclass), h)"

definition get_history :: "heap \<Rightarrow> 'a account_scheme \<Rightarrow> (error + nat) \<times> heap" where
  "get_history h self =
     (let (history, h1) = new_list h;
          (r, h2) = get_history_loop (cells h1 (operations_history self)) history h1
      in (case r of Inl e \<Rightarrow> Inl e | Inr u \<Rightarrow> Inr history, h2))"

section \<open>CreditAccount\<close>

record credit_account = account +
  credit_limit :: double

text \<open>
  \<^verbatim>\<open>CreditAccount.__init__(account_holder, balance, credit_limit)\<close>. Each number is
  converted by \<^verbatim>\<open>float\<close> before it is compared.
\<close>

definition CreditAccount_init ::
  "heap \<Rightarrow> pyval \<Rightarrow> pyval \<Rightarrow> pyval \<Rightarrow> error + (heap \<times> credit_account)" where
  "CreditAccount_init h account_holder balance0 credit_limit0 =
     (case as_number credit_limit0 of
        None \<Rightarrow> Inl (Raise TypeError credit_limit_must_be_number)
      | Some m \<Rightarrow>
          (case float_of m of
             Inl e \<Rightarrow> Inl e
           | Inr l \<Rightarrow>
               if dlt l dzero then Inl (Raise ValueError credit_limit_negative)
               else
                 (case as_number balance0 of
                    None \<Rightarrow> Inl (Raise TypeError balance_must_be_number)
                  | Some n \<Rightarrow>
                      (case float_of n of
                         Inl e \<Rightarrow> Inl e
                       | Inr b \<Rightarrow>
                           if dlt b (dneg l) then
                             Inl (Raise ValueError initial_balance_below_limit)
                           else
                             (case as_str account_holder of
                                None \<Rightarrow> Inl (Raise ValueError holder_must_be_nonempty_str)
                              | Some s \<Rightarrow>
                                  if strip s = [] then
                                    Inl (Raise ValueError holder_must_be_nonempty_str)
                                  else
                                    (let (a, h') = new_list h
                                     in Inr (h', \<lparr>holder = strip s, balance = b,
                                                   operations_history = a,
                                                   credit_limit = l\<rparr>)))))))"

definition get_available_credit :: "credit_account \<Rightarrow> double" where
  "get_available_credit self = dadd (balance self) (credit_limit self)"

definition CreditAccount_deposit ::
  "datetime \<Rightarrow> heap \<Rightarrow> credit_account \<Rightarrow> pyval \<Rightarrow> (error + bool) \<times> heap \<times> credit_account" where
  "CreditAccount_deposit now h self amount0 =
     (case validate_amount amount0 of
        Inl e \<Rightarrow> (Inl e, h, self)
      | Inr a \<Rightarrow>
          (let self' = self\<lparr>balance := dadd (balance self) a\<rparr>
           in (Inr True, add_operation now h self' Deposit a Success (Some False), self')))"

definition CreditAccount_withdraw ::
  "datetime \<Rightarrow> heap \<Rightarrow> credit_account \<Rightarrow> pyval \<Rightarrow> (error + bool) \<times> heap \<times> credit_account" where
  "CreditAccount_withdraw now h self amount0 =
     (case validate_amount amount0 of
        Inl e \<Rightarrow> (Inl e, h, self)
      | Inr a \<Rightarrow>
          (let new_balance = dsub (balance self) a
           in if dlt new_balance (dneg (credit_limit self)) then
                (let cu = dlt (balance self) dzero
                 in (Inr False, add_operation now h self Withdraw a Fail (Some cu), self))
              else
                (let was_credit_used_before = dlt (balance self) dzero;
                     self' = self\<lparr>balance := new_balance\<rparr>;
                     cu = (was_credit_used_before \<or> dlt (balance self') dzero)
                 in (Inr True, add_operation now h self' Withdraw a Success (Some cu), self'))))"

section \<open>Objects of either class, and sequences of calls\<close>

text \<open>
  An account object is an instance of \<^verbatim>\<open>Account\<close> or of \<^verbatim>\<open>CreditAccount\<close>, and
  \<^verbatim>\<open>obj.deposit(x)\<close>, \<^verbatim>\<open>obj.withdraw(x)\<close> run the method of the object's class.
\<close>

datatype bank_account = AccountObj account | CreditAccountObj credit_account

fun deposit :: "datetime \<Rightarrow> heap \<Rightarrow> bank_account \<Rightarrow> pyval \<Rightarrow> (error + bool) \<times> heap \<times> bank_account" where
  "deposit now h (AccountObj self) x =
     (case Account_deposit now h self x of (r, h', self') \<Rightarrow> (r, h', AccountObj self'))"
| "deposit now h (CreditAccountObj self) x =
     (case CreditAccount_deposit now h self x of (r, h', self') \<Rightarrow> (r, h', CreditAccountObj self'))"

fun withdraw :: "datetime \<Rightarrow> heap \<Rightarrow> bank_account \<Rightarrow> pyval \<Rightarrow> (error + bool) \<times> heap \<times> bank_account" where
  "withdraw now h (AccountObj self) x =
     (case Account_withdraw now h self x of (r, h', self') \<Rightarrow> (r, h', AccountObj self'))"
| "withdraw now h (CreditAccountObj self) x =
     (case CreditAccount_withdraw now h self x of (r, h', self') \<Rightarrow> (r, h', CreditAccountObj self'))"

fun balance_of :: "bank_account \<Rightarrow> double" where
  "balance_of (AccountObj self) = get_balance self"
| "balance_of (CreditAccountObj self) = get_balance self"

fun history_addr :: "bank_account \<Rightarrow> nat" where
  "history_addr (AccountObj self) = operations_history self"
| "history_addr (CreditAccountObj self) = operations_history self"

fun history_of :: "bank_account \<Rightarrow> heap \<Rightarrow> (error + nat) \<times> heap" where
  "history_of (AccountObj self) h = get_history h self"
| "history_of (CreditAccountObj self) h = get_history h self"

text \<open>
  A sequence of calls on one object, each with the clock's reading at the call. A caller
  that catches an exception goes on with the object as the call left it. \<open>run\<close> lists
  the outcome of every call with the store and the object after it.
\<close>

datatype call = Call_deposit pyval | Call_withdraw pyval

fun perform :: "datetime \<Rightarrow> call \<Rightarrow> heap \<Rightarrow> bank_account \<Rightarrow> (error + bool) \<times> heap \<times> bank_account" where
  "perform now (Call_deposit x) h obj = deposit now h obj x"
| "perform now (Call_withdraw x) h obj = withdraw now h obj x"

fun run :: "(datetime \<times> call) list \<Rightarrow> heap \<Rightarrow> bank_account \<Rightarrow> ((error + bool) \<times> heap \<times> bank_account) list" where
  "run [] h obj = []"
| "run ((now, c) # cs) h obj =
     (case perform now c h obj of (r, h', obj') \<Rightarrow> (r, h', obj') # run cs h' obj')"

text \<open>
  The entries of a list that are \<^verbatim>\<open>Operation\<close>s, and the sum of the amounts of those
  recorded as successful operations of one kind, added up as Python's \<^verbatim>\<open>sum\<close> adds
  floats: from \<^verbatim>\<open>0\<close>, in the order of the list.
\<close>

fun operations_of :: "pyelem list \<Rightarrow> operation list" where
  "operations_of [] = []"
| "operations_of (OperationObj op # es) = op # operations_of es"
| "operations_of (DictObj d # es) = operations_of es"

definition successful :: "op_kind \<Rightarrow> operation list \<Rightarrow> double" where
  "successful k ops =
     foldl dadd dzero (map amount (filter (\<lambda>op. op_type op = k \<and> status op = Success) ops))"

text \<open>
  The balance that results from a balance \<open>b\<close> when the entries of a history are applied
  to it in their order, in floating-point arithmetic: a successful deposit adds its
  amount, a successful withdrawal subtracts it, a failed operation changes nothing.
\<close>

fun replay :: "double \<Rightarrow> operation list \<Rightarrow> double" where
  "replay b [] = b"
| "replay b (op # ops) =
     replay (if status op = Success
             then (case op_type op of Deposit \<Rightarrow> dadd b (amount op)
                                    | Withdraw \<Rightarrow> dsub b (amount op))
             else b) ops"

text \<open>An entry without its \<^verbatim>\<open>credit_used\<close> field, and what a caller observes of a call.\<close>

definition without_credit_used :: "operation \<Rightarrow> operation" where
  "without_credit_used op = op\<lparr>credit_used := None\<rparr>"

definition observe :: "(error + bool) \<times> heap \<times> bank_account \<Rightarrow> (error + bool) \<times> double \<times> operation list" where
  "observe x =
     (case x of (r, h, obj) \<Rightarrow>
        (r, balance_of obj, map without_credit_used (operations_of (cells h (history_addr obj)))))"

text \<open>
  The program's own example (its \<^verbatim>\<open>__main__\<close> block): a store with no list yet, the
  holders' names, a reading of the clock, the store and the two accounts as the
  constructors leave them, the calls made on each, and the entry and the row of the first
  deposit. Two more accounts hold large amounts: \<open>big_account\<close> is
  \<^verbatim>\<open>Account("\<dots>", 2**54)\<close>, and \<open>floor_account\<close> is a credit account of limit \<^verbatim>\<open>2**53\<close>
  whose balance is \<^verbatim>\<open>-2**53\<close>.
\<close>

definition empty_heap :: heap where
  "empty_heap = \<lparr>cells = (\<lambda>a. []), next_addr = 0\<rparr>"

definition ivan :: pystr where
  "ivan = [1048, 1074, 1072, 1085]"

definition pyotr :: pystr where
  "pyotr = [1055, 1105, 1090, 1088]"

definition noon :: datetime where
  "noon = \<lparr>year = 2024, month = 5, day = 17, hour = 12, minute = 0, second = 0, microsecond = 0\<rparr>"

definition one_list :: heap where
  "one_list = snd (new_list empty_heap)"

definition ivan_account :: account where
  "ivan_account = \<lparr>holder = ivan, balance = dint 100, operations_history = 0\<rparr>"

definition pyotr_account :: credit_account where
  "pyotr_account =
     \<lparr>holder = pyotr, balance = dint 0, operations_history = 0, credit_limit = dint 300\<rparr>"

definition big_account :: account where
  "big_account = \<lparr>holder = ivan, balance = dint (2 ^ 54), operations_history = 0\<rparr>"

definition floor_account :: credit_account where
  "floor_account =
     \<lparr>holder = pyotr, balance = dint (- (2 ^ 53)), operations_history = 0,
      credit_limit = dint (2 ^ 53)\<rparr>"

definition account_demo :: "(datetime \<times> call) list" where
  "account_demo =
     [(noon, Call_deposit (PyNum (PyInt 50))), (noon, Call_withdraw (PyNum (PyInt 500))),
      (noon, Call_withdraw (PyNum (PyInt 120)))]"

definition credit_demo :: "(datetime \<times> call) list" where
  "credit_demo =
     [(noon, Call_withdraw (PyNum (PyInt 100))), (noon, Call_withdraw (PyNum (PyInt 250))),
      (noon, Call_deposit (PyNum (PyInt 80)))]"

definition first_entry :: operation where
  "first_entry =
     \<lparr>op_type = Deposit, amount = dint 50, timestamp = noon, balance_after = dint 150,
      status = Success, credit_used = None\<rparr>"

definition first_row :: history_row where
  "first_row =
     \<lparr>op_type = Deposit, amount = dint 50,
      timestamp = [50, 48, 50, 52, 45, 48, 53, 45, 49, 55, 32, 49, 50, 58, 48, 48, 58, 48, 48],
      balance_after = dint 150, status = Success, credit_used = None\<rparr>"

section \<open>Notions used by the properties\<close>

text \<open>
  What every call keeps of an object of each class (the balance is not below the bound
  of the class; the credit limit is a double that is not negative); what identifies an
  object across calls; the entries a stretch of calls records; and the content of the
  list a call of \<open>history_of\<close> returned.
\<close>

fun within_bound :: "bank_account \<Rightarrow> bool" where
  "within_bound (AccountObj self) = (\<not> dlt (balance self) dzero)"
| "within_bound (CreditAccountObj self) =
     (\<not> dlt (balance self) (dneg (credit_limit self)) \<and> \<not> dlt (credit_limit self) dzero \<and>
      is_double (credit_limit self))"

fun same_object :: "bank_account \<Rightarrow> bank_account \<Rightarrow> bool" where
  "same_object (AccountObj a) (AccountObj b) =
     (holder a = holder b \<and> operations_history a = operations_history b)"
| "same_object (CreditAccountObj a) (CreditAccountObj b) =
     (holder a = holder b \<and> operations_history a = operations_history b \<and>
      credit_limit a = credit_limit b)"
| "same_object (AccountObj a) (CreditAccountObj b) = False"
| "same_object (CreditAccountObj a) (AccountObj b) = False"

fun available_credit_of :: "bank_account \<Rightarrow> double option" where
  "available_credit_of (AccountObj self) = None"
| "available_credit_of (CreditAccountObj self) = Some (get_available_credit self)"

definition recorded_since :: "heap \<Rightarrow> bank_account \<Rightarrow> heap \<Rightarrow> pyelem list" where
  "recorded_since h obj h' =
     drop (length (cells h (history_addr obj))) (cells h' (history_addr obj))"

definition visible :: "heap \<Rightarrow> bank_account \<Rightarrow> double \<times> operation list" where
  "visible h obj =
     (balance_of obj, map without_credit_used (operations_of (cells h (history_addr obj))))"

definition returned_list :: "(error + nat) \<times> heap \<Rightarrow> pyelem list option" where
  "returned_list x = (case x of (Inl e, h) \<Rightarrow> None | (Inr a, h) \<Rightarrow> Some (cells h a))"

section \<open>Facts about rounding\<close>

lemma floorlog2_eqI:
  assumes "0 < w" "2 ^ (w - 1) \<le> n" "n < 2 ^ w"
  shows "floorlog 2 n = w"
proof (rule antisym)
  show "floorlog 2 n \<le> w" using assms(3) by (simp add: floorlog_le_iff)
  show "w \<le> floorlog 2 n" using assms(2) by (intro floorlog_geI) simp_all
qed

lemma floorlog2_bounds:
  assumes "0 < n"
  shows "2 ^ (floorlog 2 n - 1) \<le> n" "n < 2 ^ floorlog 2 n" "0 < floorlog 2 n"
  using floorlog_bounds[of n 2] assms by (auto simp: floorlog_eq_zero_iff intro: Nat.gr0I)

lemma floorlog2_scale:
  assumes "0 < n"
  shows "floorlog 2 (n * 2 ^ j) = floorlog 2 n + j"
proof (rule floorlog2_eqI)
  note b = floorlog2_bounds[OF assms]
  show "0 < floorlog 2 n + j" using b by simp
  have "2 ^ (floorlog 2 n + j - 1) = 2 ^ (floorlog 2 n - 1) * (2::nat) ^ j"
    using b(3) by (simp flip: power_add)
  also have "\<dots> \<le> n * 2 ^ j" using b(1) by simp
  finally show "2 ^ (floorlog 2 n + j - 1) \<le> n * 2 ^ j" .
  have "n * 2 ^ j < 2 ^ floorlog 2 n * 2 ^ j" using b(2) by simp
  then show "n * 2 ^ j < 2 ^ (floorlog 2 n + j)" by (simp add: power_add)
qed

text \<open>the shape of a number of more than 53 bits\<close>

lemma big_shape:
  assumes "2 ^ 53 \<le> n"
  defines "k \<equiv> floorlog 2 n - 53"
  shows "floorlog 2 n = 53 + k" "2 ^ 52 \<le> n div 2 ^ k" "n div 2 ^ k < 2 ^ 53" "0 < k"
proof -
  have pos: "0 < n" using assms(1) by (cases "n = 0") simp_all
  note b = floorlog2_bounds[OF pos]
  have "(2::nat) ^ 53 < 2 ^ floorlog 2 n" using assms(1) b(2) by (rule le_less_trans)
  then have l: "53 < floorlog 2 n" by (simp only: power_strict_increasing_iff one_less_numeral_iff semiring_norm)
  then show p: "floorlog 2 n = 53 + k" by (simp add: k_def)
  show "0 < k" using l by (simp add: k_def)
  have "n < 2 ^ 53 * 2 ^ k" using b(2) by (simp add: p power_add)
  then show "n div 2 ^ k < 2 ^ 53" by (simp add: less_mult_imp_div_less)
  have "2 ^ (floorlog 2 n - 1) = (2::nat) ^ 52 * 2 ^ k" by (simp add: p power_add)
  then have "2 ^ 52 * 2 ^ k \<le> n" using b(1) by simp
  then show "2 ^ 52 \<le> n div 2 ^ k" by (simp add: less_eq_div_iff_mult_less_eq)
qed


lemma round_even_big:
  assumes "2 ^ 53 \<le> n"
  defines "k \<equiv> floorlog 2 n - 53"
  shows "round_even n = n div 2 ^ k * 2 ^ k \<or> round_even n = (n div 2 ^ k + 1) * 2 ^ k"
    and "n mod 2 ^ k = 0 \<Longrightarrow> round_even n = n"
    and "round_even n = (n div 2 ^ k + 1) * 2 ^ k \<Longrightarrow> n div 2 ^ k * 2 ^ k < n"
proof -
  have nl: "\<not> n < 2 ^ 53" using assms(1) by simp
  show "round_even n = n div 2 ^ k * 2 ^ k \<or> round_even n = (n div 2 ^ k + 1) * 2 ^ k"
    using nl by (simp add: round_even_def Let_def k_def)
  show "round_even n = n" if "n mod 2 ^ k = 0"
  proof -
    have "n div 2 ^ k * 2 ^ k = n" using that by (simp add: mod_eq_0_iff_dvd)
    then show ?thesis using nl that by (simp add: round_even_def Let_def k_def)
  qed
  show "n div 2 ^ k * 2 ^ k < n" if up: "round_even n = (n div 2 ^ k + 1) * 2 ^ k"
  proof (rule ccontr)
    assume "\<not> n div 2 ^ k * 2 ^ k < n"
    then have "n mod 2 ^ k = 0"
      by (metis add_cancel_right_right div_mult_mod_eq le_add1 le_neq_implies_less)
    then have "round_even n = n div 2 ^ k * 2 ^ k"
      using nl by (simp add: round_even_def Let_def k_def)
    with up show False by simp
  qed
qed

lemma round_even_zero_iff: "round_even n = 0 \<longleftrightarrow> n = 0"
proof (cases "n < 2 ^ 53")
  case True
  then show ?thesis by (simp add: round_even_def)
next
  case False
  then have b: "2 ^ 53 \<le> n" by simp
  from big_shape(2)[OF b] have "0 < n div 2 ^ (floorlog 2 n - 53)"
    by (rule less_le_trans[rotated]) simp
  with round_even_big(1)[OF b] False show ?thesis by auto
qed

lemma round_even_representable:
  assumes "representable n"
  shows "round_even n = n"
proof (cases "n < 2 ^ 53")
  case True
  then show ?thesis by (simp add: round_even_def)
next
  case False
  then have "n mod 2 ^ (floorlog 2 n - 53) = 0" using assms by (simp add: representable_def)
  with False show ?thesis by (intro round_even_big(2)) simp_all
qed

lemma representable_round_even:
  assumes "round_even n < 2 ^ 1024 * scale"
  shows "representable (round_even n)"
proof (cases "n < 2 ^ 53")
  case True
  then show ?thesis using assms by (simp add: round_even_def representable_def)
next
  case False
  then have b: "2 ^ 53 \<le> n" by simp
  define k where "k = floorlog 2 n - 53"
  define q where "q = n div 2 ^ k"
  note sh = big_shape[OF b, folded k_def q_def]
  from round_even_big(1)[OF b, folded k_def q_def]
  consider "round_even n = q * 2 ^ k" | "round_even n = (q + 1) * 2 ^ k" by blast
  then have "round_even n mod 2 ^ (floorlog 2 (round_even n) - 53) = 0"
  proof cases
    case 1
    have "0 < q" using sh(2) by (rule less_le_trans[rotated]) simp
    then have "floorlog 2 (q * 2 ^ k) = floorlog 2 q + k" by (rule floorlog2_scale)
    moreover have "floorlog 2 q = 53" using sh(2,3) by (intro floorlog2_eqI) simp_all
    ultimately show ?thesis using 1 by simp
  next
    case 2
    have "0 < q + 1" by simp
    then have f: "floorlog 2 ((q + 1) * 2 ^ k) = floorlog 2 (q + 1) + k" by (rule floorlog2_scale)
    have "floorlog 2 (q + 1) = 53 \<or> floorlog 2 (q + 1) = 54"
    proof (cases "q + 1 < 2 ^ 53")
      case True
      then have "floorlog 2 (q + 1) = 53" using sh(2) by (intro floorlog2_eqI) simp_all
      then show ?thesis by simp
    next
      case False
      then have e: "q + 1 = 2 ^ 53" using sh(3) by simp
      have "floorlog 2 ((2::nat) ^ 53) = 54" by (rule floorlog2_eqI) simp_all
      then have "floorlog 2 (q + 1) = 54" by (simp only: e)
      then show ?thesis by simp
    qed
    then show ?thesis
    proof
      assume "floorlog 2 (q + 1) = 53"
      then show ?thesis using 2 f by simp
    next
      assume a: "floorlog 2 (q + 1) = 54"
      have "q + 1 = 2 ^ 53"
      proof (rule ccontr)
        assume "q + 1 \<noteq> 2 ^ 53"
        then have "q + 1 < 2 ^ 53" using sh(3) by simp
        then have "floorlog 2 (q + 1) = 53" using sh(2) by (intro floorlog2_eqI) simp_all
        with a show False by simp
      qed
      then have "(q + 1) * 2 ^ k = 2 ^ 52 * 2 ^ (Suc k)" by simp
      then show ?thesis using 2 f a by simp
    qed
  qed
  then show ?thesis using assms by (simp add: representable_def)
qed


lemma round_even_le_representable:
  assumes "n \<le> y" "representable y"
  shows "round_even n \<le> y"
proof (cases "n < 2 ^ 53")
  case True
  then show ?thesis using assms(1) by (simp add: round_even_def)
next
  case False
  then have b: "2 ^ 53 \<le> n" by simp
  define k where "k = floorlog 2 n - 53"
  define q where "q = n div 2 ^ k"
  from round_even_big(1)[OF b, folded k_def q_def]
  consider "round_even n = q * 2 ^ k" | "round_even n = (q + 1) * 2 ^ k" by blast
  then show ?thesis
  proof cases
    case 1
    have "q * 2 ^ k \<le> n" by (simp add: q_def)
    with 1 assms(1) show ?thesis by simp
  next
    case 2
    from round_even_big(3)[OF b, folded k_def q_def] 2 have "q * 2 ^ k < n" by simp
    with assms(1) have lt: "q * 2 ^ k < y" by simp
    have yb: "\<not> y < 2 ^ 53" using b assms(1) by simp
    then have m: "y mod 2 ^ (floorlog 2 y - 53) = 0" using assms(2) by (simp add: representable_def)
    have "floorlog 2 n \<le> floorlog 2 y" using assms(1) by (rule floorlog_mono)
    then have "k \<le> floorlog 2 y - 53" by (simp add: k_def)
    then have "(2::nat) ^ k dvd 2 ^ (floorlog 2 y - 53)" by (simp add: le_imp_power_dvd)
    moreover have "2 ^ (floorlog 2 y - 53) dvd y" using m by (simp add: mod_eq_0_iff_dvd)
    ultimately have "2 ^ k dvd y" by (rule dvd_trans)
    then obtain j where j: "y = j * 2 ^ k" by (auto simp: dvd_def mult.commute)
    with lt have "q < j" by simp
    then have "q + 1 \<le> j" by simp
    then have "(q + 1) * 2 ^ k \<le> j * 2 ^ k" by (rule mult_le_mono1)
    with 2 j show ?thesis by simp
  qed
qed

lemma round_even_scale: "round_even (n * 2 ^ j) = round_even n * 2 ^ j"
proof (cases "n * 2 ^ j < 2 ^ 53")
  case True
  have "n \<le> n * 2 ^ j" by simp
  then have "n < 2 ^ 53" using True by (rule le_less_trans)
  with True show ?thesis by (simp add: round_even_def)
next
  case False
  then have B: "2 ^ 53 \<le> n * 2 ^ j" by simp
  then have pos: "0 < n" by (cases "n = 0") simp_all
  show ?thesis
  proof (cases "n < 2 ^ 53")
    case True
    then have "floorlog 2 n \<le> 53" by (simp add: floorlog_le_iff)
    then have "floorlog 2 (n * 2 ^ j) - 53 \<le> j" by (simp add: floorlog2_scale[OF pos])
    then have "(2::nat) ^ (floorlog 2 (n * 2 ^ j) - 53) dvd 2 ^ j" by (simp add: le_imp_power_dvd)
    then have "2 ^ (floorlog 2 (n * 2 ^ j) - 53) dvd n * 2 ^ j" by (rule dvd_mult)
    then have "(n * 2 ^ j) mod 2 ^ (floorlog 2 (n * 2 ^ j) - 53) = 0" by (simp add: mod_eq_0_iff_dvd)
    then have "round_even (n * 2 ^ j) = n * 2 ^ j" using B by (intro round_even_big(2)) simp_all
    with True show ?thesis by (simp add: round_even_def)
  next
    case False
    then have b: "2 ^ 53 \<le> n" by simp
    define k where "k = floorlog 2 n - 53"
    have kp: "0 < k" using big_shape(4)[OF b] by (simp add: k_def)
    have k': "floorlog 2 (n * 2 ^ j) - 53 = k + j"
      using big_shape(1)[OF b] by (simp add: floorlog2_scale[OF pos] k_def)
    have d: "n * 2 ^ j div 2 ^ (k + j) = n div 2 ^ k"
      by (simp add: power_add)
    have m: "n * 2 ^ j mod 2 ^ (k + j) = n mod 2 ^ k * 2 ^ j"
      by (simp add: power_add mult_mod_left mult.commute)
    have h: "(2::nat) ^ (k + j - 1) = 2 ^ (k - 1) * 2 ^ j"
      using kp by (simp flip: power_add)
    have nB: "\<not> n * 2 ^ j < 2 ^ 53" using B by simp
    define up where "up \<longleftrightarrow> 2 ^ (k - 1) < n mod 2 ^ k \<or> (n mod 2 ^ k = 2 ^ (k - 1) \<and> odd (n div 2 ^ k))"
    have l: "round_even n = (if up then n div 2 ^ k + 1 else n div 2 ^ k) * 2 ^ k"
      using False unfolding round_even_def Let_def k_def up_def by simp
    have "round_even (n * 2 ^ j) =
        (if 2 ^ (k + j - 1) < n * 2 ^ j mod 2 ^ (k + j) \<or>
            (n * 2 ^ j mod 2 ^ (k + j) = 2 ^ (k + j - 1) \<and> odd (n * 2 ^ j div 2 ^ (k + j)))
         then n * 2 ^ j div 2 ^ (k + j) + 1 else n * 2 ^ j div 2 ^ (k + j)) * 2 ^ (k + j)"
      using nB unfolding round_even_def Let_def k' by simp
    also have "\<dots> = (if up then n div 2 ^ k + 1 else n div 2 ^ k) * 2 ^ (k + j)"
      unfolding d m h up_def by simp
    also have "\<dots> = round_even n * 2 ^ j"
      unfolding l by (simp add: power_add)
    finally show ?thesis .
  qed
qed

lemma scale_pos: "0 < scale"
  by (simp only: scale_def zero_less_power zero_less_numeral)

lemma nearest_scaled:
  "nearest s (n * scale) =
     (if round_even n < 2 ^ 1024 then Finite s (round_even n * scale) else Infinite s)"
  using scale_pos by (simp add: nearest_def round_even_scale[of n 1074, folded scale_def])

lemma round_even_small: "n < 2 ^ 53 \<Longrightarrow> round_even n = n"
  by (simp add: round_even_def)


lemma signed_zero [simp]: "signed s 0 = 0"
  by (simp add: signed_def)

lemma is_double_nearest: "is_double (nearest s n)"
  by (simp add: nearest_def Let_def representable_round_even)

lemma nearest_cases:
  obtains r where "nearest s n = Finite s r" "r = round_even n" "r < 2 ^ 1024 * scale"
  | "nearest s n = Infinite s"
  by (cases "round_even n < 2 ^ 1024 * scale") (simp_all add: nearest_def)

lemma nearest_below:
  assumes "n \<le> y" "representable y"
  shows "\<exists>r. nearest s n = Finite s r \<and> r \<le> y"
proof -
  have "round_even n \<le> y" using assms by (rule round_even_le_representable)
  moreover have "y < 2 ^ 1024 * scale" using assms(2) by (simp add: representable_def)
  ultimately show ?thesis by (simp add: nearest_def)
qed

lemma dlt_nearest_zero: "0 < n \<Longrightarrow> dlt (nearest s n) (Finite t 0) = s"
  using round_even_zero_iff[of n]
  by (cases "round_even n < 2 ^ 1024 * scale") (auto simp: nearest_def signed_def)

lemma not_dlt_nearest_pos: "\<not> dlt (nearest False n) (Finite t 0)"
  by (rule nearest_cases[of False n]) (auto simp: signed_def)

text \<open>standard account: deposit and withdrawal keep the balance from being negative\<close>

lemma dadd_not_negative:
  assumes "\<not> dlt b dzero" "\<not> dle a dzero"
  shows "\<not> dlt (dadd b a) dzero"
proof (cases b)
  case (Finite s n)
  show ?thesis
  proof (cases a)
    case (Finite t m)
    with \<open>b = Finite s n\<close> assms show ?thesis
      using not_dlt_nearest_pos[of "nat \<bar>signed s n + signed t m\<bar>" False]
      by (auto simp: dzero_def Let_def signed_def split: if_splits)
  qed (use Finite assms in \<open>auto simp: dzero_def\<close>)
next
  case (Infinite s)
  with assms show ?thesis by (cases a) (auto simp: dzero_def)
qed simp

lemma dsub_not_negative:
  assumes "\<not> dlt b dzero" "\<not> dlt b a"
  shows "\<not> dlt (dsub b a) dzero"
proof (cases b)
  case (Finite s n)
  show ?thesis
  proof (cases a)
    case (Finite t m)
    with \<open>b = Finite s n\<close> assms show ?thesis
      using not_dlt_nearest_pos[of "nat \<bar>signed s n + signed (\<not> t) m\<bar>" False]
      by (auto simp: dzero_def dsub_def Let_def signed_def split: if_splits)
  qed (use Finite assms in \<open>auto simp: dzero_def dsub_def\<close>)
next
  case (Infinite s)
  with assms show ?thesis by (cases a) (auto simp: dzero_def dsub_def)
qed (simp add: dsub_def)


text \<open>credit account\<close>

lemma dadd_not_below:
  assumes "\<not> dlt b (dneg l)" "\<not> dlt l dzero" "\<not> dle a dzero" "is_double l"
  shows "\<not> dlt (dadd b a) (dneg l)"
proof (cases l)
  case NaN
  then show ?thesis by (cases "dadd b a") simp_all
next
  case (Infinite u)
  with assms(2) have "dneg l = Infinite True" by (simp add: dzero_def)
  then show ?thesis by (cases "dadd b a") simp_all
next
  case l: (Finite u k)
  with assms(2) have lz: "0 \<le> signed u k" by (simp add: dzero_def signed_def)
  have rk: "representable k" using assms(4) l by simp
  show ?thesis
  proof (cases b)
    case NaN
    then show ?thesis by simp
  next
    case (Infinite s)
    with assms(1,3) l show ?thesis by (cases a) (auto simp: dzero_def)
  next
    case b: (Finite s n)
    with assms(1) l have bl: "- signed u k \<le> signed s n" by (simp add: signed_def split: if_splits)
    show ?thesis
    proof (cases a)
      case NaN
      with b show ?thesis by simp
    next
      case (Infinite t)
      with assms(3) b l show ?thesis by (simp add: dzero_def)
    next
      case a: (Finite t m)
      with assms(3) have az: "0 < signed t m" by (simp add: dzero_def)
      define i where "i = signed s n + signed t m"
      have il: "- signed u k < i" using bl az by (simp add: i_def)
      have nl: "signed (\<not> u) k = - signed u k" by (simp add: signed_def)
      have d: "dadd b a = (if i = 0 then Finite (s \<and> t) 0 else nearest (i < 0) (nat \<bar>i\<bar>))"
        using a b by (simp add: i_def Let_def)
      have dn: "dneg l = Finite (\<not> u) k" using l by simp
      consider "i = 0" | "0 < i" | "i < 0" by linarith
      then show ?thesis
      proof cases
        case 1
        then show ?thesis unfolding d dn using lz by (simp add: nl)
      next
        case 2
        have "\<not> dlt (nearest False (nat \<bar>i\<bar>)) (Finite (\<not> u) k)"
          using lz by (rule_tac nearest_cases[of False "nat \<bar>i\<bar>"]) (auto simp: signed_def split: if_splits)
        then show ?thesis unfolding d dn using 2 by simp
      next
        case 3
        have "nat \<bar>i\<bar> \<le> k" using 3 il lz by (simp add: signed_def split: if_splits)
        from nearest_below[OF this rk, of True] obtain r where
          r: "nearest True (nat \<bar>i\<bar>) = Finite True r" "r \<le> k" by blast
        have "u = False \<or> k = 0" using lz by (simp add: signed_def split: if_splits)
        then show ?thesis unfolding d dn using 3 r by (auto simp: signed_def)
      qed
    qed
  qed
qed

lemma dadd_limit_not_negative:
  assumes "\<not> dlt b (dneg l)"
  shows "\<not> dlt (dadd b l) dzero"
proof (cases b)
  case (Finite s n)
  show ?thesis
  proof (cases l)
    case (Finite u k)
    with \<open>b = Finite s n\<close> assms show ?thesis
      using not_dlt_nearest_pos[of "nat \<bar>signed s n + signed u k\<bar>" False]
      by (auto simp: dzero_def Let_def signed_def split: if_splits)
  qed (use Finite assms in \<open>auto simp: dzero_def\<close>)
next
  case (Infinite s)
  with assms show ?thesis by (cases l) (auto simp: dzero_def)
qed simp

text \<open>a difference is negative exactly when the first number is the smaller one\<close>

lemma dsub_negative_iff: "dlt (dsub b a) (Finite z 0) \<longleftrightarrow> dlt b a"
proof (cases b)
  case b: (Finite s n)
  show ?thesis
  proof (cases a)
    case a: (Finite t m)
    define i where "i = signed s n + signed (\<not> t) m"
    have i: "i < 0 \<longleftrightarrow> signed s n < signed t m" by (auto simp: i_def signed_def)
    have d: "dsub b a = (if i = 0 then Finite (s \<and> \<not> t) 0 else nearest (i < 0) (nat \<bar>i\<bar>))"
      using a b by (simp add: dsub_def i_def Let_def)
    have c: "dlt b a \<longleftrightarrow> i < 0" using a b i by simp
    show ?thesis
    proof (cases "i = 0")
      case True
      then show ?thesis unfolding d c by (simp add: signed_def)
    next
      case False
      then have "0 < nat \<bar>i\<bar>" by simp
      from dlt_nearest_zero[OF this, of "i < 0" z] False show ?thesis
        unfolding d c by simp
    qed
  qed (use b in \<open>auto simp: dsub_def\<close>)
next
  case (Infinite s)
  then show ?thesis by (cases a) (auto simp: dsub_def)
qed (simp add: dsub_def)

lemma dsub_self: "dsub (Finite s n) (Finite s n) = dzero"
  by (simp add: dsub_def dzero_def signed_def)

lemma not_dlt_iff_dle: "\<not> is_nan x \<Longrightarrow> \<not> is_nan y \<Longrightarrow> \<not> dlt x y \<longleftrightarrow> dle y x"
  by (cases x; cases y) auto

lemma dlt_not_dle: "dlt x y \<Longrightarrow> \<not> dle y x"
  by (cases x; cases y) auto

lemma dlt_irrefl: "\<not> dlt x x"
  by (cases x) auto

text \<open>whole numbers\<close>

lemma whole_eq_iff: "whole s a = whole t b \<longleftrightarrow> s = t \<and> a = b"
  using scale_pos by (auto simp: whole_def)

lemma dzero_whole: "dzero = whole False 0"
  by (simp add: dzero_def whole_def)

lemma nearest_whole:
  "nearest s (n * scale) =
     (if round_even n < 2 ^ 1024 then whole s (round_even n) else Infinite s)"
  by (simp add: nearest_scaled whole_def)

lemma dint_whole:
  "dint i = (if round_even (nat \<bar>i\<bar>) < 2 ^ 1024
             then whole (i < 0) (round_even (nat \<bar>i\<bar>)) else Infinite (i < 0))"
  by (simp add: dint_def nearest_whole)

lemma dneg_whole: "dneg (whole s a) = whole (\<not> s) a"
  by (simp add: whole_def)

lemma signed_scale: "signed s (a * scale) = signed s a * int scale"
  by (simp add: signed_def)

lemma dadd_whole:
  "dadd (whole s a) (whole t b) =
     (let i = signed s a + signed t b
      in if i = 0 then whole (s \<and> t) 0
         else if round_even (nat \<bar>i\<bar>) < 2 ^ 1024 then whole (i < 0) (round_even (nat \<bar>i\<bar>))
         else Infinite (i < 0))"
proof -
  define i where "i = signed s a + signed t b"
  have e: "signed s (a * scale) + signed t (b * scale) = i * int scale"
    by (simp add: signed_scale i_def distrib_right)
  have z: "i * int scale = 0 \<longleftrightarrow> i = 0" using scale_pos by simp
  have n: "i * int scale < 0 \<longleftrightarrow> i < 0" using scale_pos by (simp add: mult_less_0_iff)
  have m: "nat \<bar>i * int scale\<bar> = nat \<bar>i\<bar> * scale"
    by (simp add: abs_mult nat_mult_distrib)
  show ?thesis
    unfolding whole_def dadd.simps e Let_def z n m i_def[symmetric]
    by (simp add: nearest_scaled)
qed

lemma dlt_whole: "dlt (whole s a) (whole t b) \<longleftrightarrow> signed s a < signed t b"
  using scale_pos by (simp add: whole_def signed_scale)

lemma dle_whole: "dle (whole s a) (whole t b) \<longleftrightarrow> signed s a \<le> signed t b"
  using scale_pos by (simp add: whole_def signed_scale)

lemma is_nan_whole: "\<not> is_nan (whole s a)"
  by (simp add: whole_def)

lemma cmp_whole_other:
  "dlt (whole s a) NaN = False" "dlt NaN x = False" "dle (whole s a) NaN = False" "dle NaN x = False"
  "dlt (whole s a) (Infinite t) = (\<not> t)" "dlt (Infinite t) (whole s a) = t"
  "dle (whole s a) (Infinite t) = (\<not> t)" "dle (Infinite t) (whole s a) = t"
  by (simp_all add: whole_def)

lemma dadd_whole_other:
  "dadd (whole s a) NaN = NaN" "dadd (whole s a) (Infinite t) = Infinite t"
  "dadd (Infinite t) (whole s a) = Infinite t"
  by (simp_all add: whole_def)

lemma is_inf_whole: "\<not> is_inf (whole s a)"
  by (simp add: whole_def)

lemma is_zero_whole: "is_zero (whole s a) \<longleftrightarrow> a = 0"
  using scale_pos by (simp add: whole_def)

text \<open>The rules that evaluate the arithmetic of whole numbers.\<close>

lemmas whole_eval =
  dint_whole dzero_whole dneg_whole dadd_whole dsub_def dlt_whole dle_whole whole_eq_iff
  is_nan_whole is_inf_whole is_zero_whole cmp_whole_other dadd_whole_other signed_def
  round_even_def Let_def compute_floorlog

text \<open>\<^verbatim>\<open>float(2**1024)\<close> is out of range, and the sign of \<^verbatim>\<open>float(i)\<close> is that of \<open>i\<close>.\<close>

lemma dint_out_of_range: "dint (2 ^ 1024) = Infinite False"
proof -
  have "round_even (1 * 2 ^ 1024) = round_even 1 * 2 ^ 1024" by (rule round_even_scale)
  then have "round_even (2 ^ 1024) = 2 ^ 1024" by (simp add: round_even_small)
  moreover have "nat \<bar>2 ^ 1024 :: int\<bar> = 2 ^ 1024" by (simp add: nat_power_eq)
  ultimately show ?thesis by (simp add: dint_whole)
qed

lemma dlt_zero_sign: "dlt x (Finite z 0) = dlt x dzero"
  by (cases x) (simp_all add: dzero_def)

lemma dlt_dint_zero: "dlt (dint i) (Finite z 0) \<longleftrightarrow> i < 0"
proof (cases "i = 0")
  case True
  then show ?thesis by (simp add: dint_def nearest_def round_even_def scale_pos)
next
  case False
  then have "0 < nat \<bar>i\<bar> * scale" using scale_pos by simp
  then show ?thesis unfolding dint_def by (rule dlt_nearest_zero)
qed

lemma is_double_dint: "is_double (dint i)"
  by (simp add: dint_def is_double_nearest)

section \<open>Auxiliary facts\<close>

lemmas method_defs =
  Account_deposit_def Account_withdraw_def CreditAccount_deposit_def CreditAccount_withdraw_def

lemmas demo_defs =
  empty_heap_def one_list_def ivan_account_def pyotr_account_def account_demo_def
  credit_demo_def ivan_def pyotr_def noon_def

lemmas store_defs = add_operation_def list_append_def one_list_def new_list_def empty_heap_def

lemma less_than_zero_float: "float_of n = Inr b \<Longrightarrow> less_than_zero n = dlt b dzero"
  by (cases n) (auto simp: dlt_dint_zero dzero_def split: if_splits)

lemma float_of_is_double: "float_of n = Inr d \<Longrightarrow> wellformed (PyNum n) \<Longrightarrow> is_double d"
  by (cases n) (auto simp: is_double_dint split: if_splits)

lemma validate_amount_number:
  "as_number x = Some n \<Longrightarrow> float_of n = Inr a \<Longrightarrow> dlt dzero a \<Longrightarrow> validate_amount x = Inr a"
  by (simp add: validate_amount_def dlt_not_dle)

lemma validate_amount_positive: "validate_amount x = Inr a \<Longrightarrow> \<not> dle a dzero"
  by (auto simp: validate_amount_def split: option.splits sum.splits if_splits)

lemma dropWhile_all: "(\<forall>x\<in>set (dropWhile P xs). P x) \<longleftrightarrow> dropWhile P xs = []"
proof
  assume a: "\<forall>x\<in>set (dropWhile P xs). P x"
  show "dropWhile P xs = []"
  proof (rule ccontr)
    assume n: "dropWhile P xs \<noteq> []"
    then have "\<not> P (hd (dropWhile P xs))" by (rule hd_dropWhile)
    moreover have "hd (dropWhile P xs) \<in> set (dropWhile P xs)" using n by simp
    ultimately show False using a by blast
  qed
next
  assume "dropWhile P xs = []"
  then show "\<forall>x\<in>set (dropWhile P xs). P x" by (simp only: list.set ball_empty)
qed

lemma strip_empty_iff: "strip s = [] \<longleftrightarrow> (\<forall>c\<in>set s. isspace c)"
  by (simp add: strip_def dropWhile_all dropWhile_eq_Nil_conv)

text \<open>\<open>strip\<close> keeps a middle piece of the string that neither starts nor ends with a
  space, and drops only spaces.\<close>

lemma strip_trims:
  "\<exists>pre post. s = pre @ strip s @ post \<and> (\<forall>c\<in>set pre. isspace c) \<and> (\<forall>c\<in>set post. isspace c) \<and>
     (strip s \<noteq> [] \<longrightarrow> \<not> isspace (hd (strip s)) \<and> \<not> isspace (last (strip s)))"
proof -
  define pre where "pre = takeWhile isspace s"
  define mid where "mid = dropWhile isspace s"
  define post where "post = rev (takeWhile isspace (rev mid))"
  have s: "s = pre @ mid" by (simp add: pre_def mid_def)
  have "rev (takeWhile isspace (rev mid) @ dropWhile isspace (rev mid)) = mid"
    by (simp only: takeWhile_dropWhile_id rev_rev_ident)
  then have "rev (dropWhile isspace (rev mid)) @ rev (takeWhile isspace (rev mid)) = mid"
    by (simp only: rev_append)
  then have m: "mid = strip s @ post"
    by (simp add: strip_def post_def mid_def)
  have p1: "\<forall>c\<in>set pre. isspace c" by (auto simp: pre_def dest: set_takeWhileD)
  have p2: "\<forall>c\<in>set post. isspace c" by (auto simp: post_def dest: set_takeWhileD)
  have e: "\<not> isspace (hd (strip s)) \<and> \<not> isspace (last (strip s))" if ne: "strip s \<noteq> []"
  proof -
    have d: "dropWhile isspace (rev mid) \<noteq> []" using ne by (simp add: strip_def mid_def)
    then have "\<not> isspace (hd (dropWhile isspace (rev mid)))" by (rule hd_dropWhile)
    then have l: "\<not> isspace (last (strip s))"
      using d by (simp add: strip_def mid_def last_rev)
    have "mid \<noteq> []" using m ne by auto
    then have "\<not> isspace (hd mid)" unfolding mid_def by (rule hd_dropWhile)
    moreover have "hd mid = hd (strip s)" using m ne by (metis hd_append2)
    ultimately show ?thesis using l by simp
  qed
  show ?thesis using s m p1 p2 e by (intro exI[of _ pre] exI[of _ post]) simp
qed

lemma operations_of_append: "operations_of (xs @ ys) = operations_of xs @ operations_of ys"
  by (induction xs rule: operations_of.induct) auto

lemma operations_of_map: "operations_of (map OperationObj ops) = ops"
  by (induction ops) auto

lemma replay_append: "replay b (xs @ ys) = replay (replay b xs) ys"
  by (induction xs arbitrary: b) auto

text \<open>What one call does: to the bound, to the history, and to the balance.\<close>

lemma perform_bound:
  assumes "perform now c h obj = (r, h', obj')" and "within_bound obj"
  shows "within_bound obj' \<and> same_object obj obj'"
proof (cases "case c of Call_deposit x \<Rightarrow> validate_amount x | Call_withdraw x \<Rightarrow> validate_amount x")
  case (Inl e)
  with assms show ?thesis
    by (cases c; cases obj) (auto simp: method_defs)
next
  case (Inr a)
  then have "\<not> dle a dzero" by (cases c) (auto dest: validate_amount_positive)
  with Inr assms show ?thesis
    by (cases c; cases obj)
      (auto simp: method_defs Let_def dadd_not_negative dsub_not_negative dadd_not_below
        split: if_splits)
qed

lemma same_object_trans: "same_object a b \<Longrightarrow> same_object b c \<Longrightarrow> same_object a c"
  by (cases a; cases b; cases c) auto

lemma run_bound:
  "(r, h', obj') \<in> set (run cs h obj) \<Longrightarrow> within_bound obj \<Longrightarrow>
     within_bound obj' \<and> same_object obj obj'"
proof (induction cs arbitrary: h obj)
  case Nil
  then show ?case by simp
next
  case (Cons nc cs)
  obtain now c where nc: "nc = (now, c)" by (cases nc)
  obtain r1 h1 obj1 where p: "perform now c h obj = (r1, h1, obj1)"
    by (cases "perform now c h obj")
  from perform_bound[OF p Cons.prems(2)]
  have b1: "within_bound obj1" and s1: "same_object obj obj1" by simp_all
  from Cons.prems(1) nc p
  consider "(r, h', obj') = (r1, h1, obj1)" | "(r, h', obj') \<in> set (run cs h1 obj1)"
    by auto
  then show ?case
  proof cases
    case 1
    with b1 s1 show ?thesis by simp
  next
    case 2
    from Cons.IH[OF 2 b1] s1 show ?thesis by (auto intro: same_object_trans)
  qed
qed

lemma perform_ledger:
  assumes "perform now c h obj = (r, h', obj')"
  shows "history_addr obj' = history_addr obj \<and>
     cells h' (history_addr obj) = cells h (history_addr obj) @ recorded_since h obj h' \<and>
     balance_of obj' = replay (balance_of obj) (operations_of (recorded_since h obj h'))"
proof (cases "case c of Call_deposit x \<Rightarrow> validate_amount x | Call_withdraw x \<Rightarrow> validate_amount x")
  case (Inl e)
  with assms show ?thesis
    by (cases c; cases obj) (auto simp: method_defs recorded_since_def)
next
  case (Inr a)
  with assms show ?thesis
    by (cases c; cases obj)
      (auto simp: method_defs add_operation_def list_append_def Let_def get_balance_def
        recorded_since_def split: if_splits)
qed

lemma run_ledger:
  "(r, h', obj') \<in> set (run cs h obj) \<Longrightarrow>
     history_addr obj' = history_addr obj \<and>
     cells h' (history_addr obj) = cells h (history_addr obj) @ recorded_since h obj h' \<and>
     balance_of obj' = replay (balance_of obj) (operations_of (recorded_since h obj h'))"
proof (induction cs arbitrary: h obj)
  case Nil
  then show ?case by simp
next
  case (Cons nc cs)
  obtain now c where nc: "nc = (now, c)" by (cases nc)
  obtain r1 h1 obj1 where p: "perform now c h obj = (r1, h1, obj1)"
    by (cases "perform now c h obj")
  let ?a = "history_addr obj"
  from perform_ledger[OF p]
  have a1: "history_addr obj1 = ?a"
    and e1: "cells h1 ?a = cells h ?a @ recorded_since h obj h1"
    and b1: "balance_of obj1 = replay (balance_of obj) (operations_of (recorded_since h obj h1))"
    by simp_all
  from Cons.prems nc p
  consider "(r, h', obj') = (r1, h1, obj1)" | "(r, h', obj') \<in> set (run cs h1 obj1)"
    by auto
  then show ?case
  proof cases
    case 1
    with a1 e1 b1 show ?thesis by simp
  next
    case 2
    from Cons.IH[OF 2] a1
    have a2: "history_addr obj' = ?a"
      and e2: "cells h' ?a = cells h1 ?a @ recorded_since h1 obj1 h'"
      and b2: "balance_of obj' =
        replay (balance_of obj1) (operations_of (recorded_since h1 obj1 h'))"
      by simp_all
    have e3: "cells h' ?a = cells h ?a @ (recorded_since h obj h1 @ recorded_since h1 obj1 h')"
      using e1 e2 by simp
    have r: "recorded_since h obj h' = recorded_since h obj h1 @ recorded_since h1 obj1 h'"
      by (subst recorded_since_def) (simp add: e3)
    show ?thesis using a2 b1 b2 e3 r by (simp add: operations_of_append replay_append)
  qed
qed

text \<open>A credit account with limit \<open>0\<close> and a standard account, call by call.\<close>

lemma perform_zero_limit:
  assumes "is_zero (credit_limit cself)"
    and "visible ha (AccountObj self) = visible hc (CreditAccountObj cself)"
    and "perform now c ha (AccountObj self) = (r, ha', obj')"
    and "perform now c hc (CreditAccountObj cself) = (rc, hc', cobj')"
  shows "\<exists>self' cself'. obj' = AccountObj self' \<and> cobj' = CreditAccountObj cself' \<and>
     is_zero (credit_limit cself') \<and> r = rc \<and> visible ha' obj' = visible hc' cobj'"
proof (cases "case c of Call_deposit x \<Rightarrow> validate_amount x | Call_withdraw x \<Rightarrow> validate_amount x")
  case (Inl e)
  with assms show ?thesis
    by (cases c) (auto simp: method_defs visible_def)
next
  case (Inr a)
  from assms(1) obtain z where "dneg (credit_limit cself) = Finite z 0"
    by (cases "credit_limit cself") auto
  then have k: "dlt (dsub b a) (dneg (credit_limit cself)) = dlt b a" for b a
    by (simp add: dsub_negative_iff)
  from Inr assms show ?thesis
    by (cases c)
      (auto simp: method_defs visible_def Let_def get_balance_def add_operation_def k
        list_append_def operations_of_append without_credit_used_def split: if_splits)
qed

lemma run_zero_limit:
  "is_zero (credit_limit cself) \<Longrightarrow>
   visible ha (AccountObj self) = visible hc (CreditAccountObj cself) \<Longrightarrow>
   map observe (run cs ha (AccountObj self)) = map observe (run cs hc (CreditAccountObj cself))"
proof (induction cs arbitrary: ha hc self cself)
  case Nil
  then show ?case by simp
next
  case (Cons nc cs)
  obtain now c where nc: "nc = (now, c)" by (cases nc)
  obtain r ha' obj' where p: "perform now c ha (AccountObj self) = (r, ha', obj')"
    by (cases "perform now c ha (AccountObj self)")
  obtain rc hc' cobj' where q: "perform now c hc (CreditAccountObj cself) = (rc, hc', cobj')"
    by (cases "perform now c hc (CreditAccountObj cself)")
  from perform_zero_limit[OF Cons.prems p q]
  obtain self' cself' where o: "obj' = AccountObj self'" "cobj' = CreditAccountObj cself'"
    "is_zero (credit_limit cself')" "r = rc" "visible ha' obj' = visible hc' cobj'"
    by blast
  have "observe (r, ha', obj') = observe (rc, hc', cobj')"
    using o by (simp add: observe_def visible_def)
  moreover have "map observe (run cs ha' (AccountObj self')) =
      map observe (run cs hc' (CreditAccountObj cself'))"
    using Cons.IH[of cself' ha' self' hc'] o by simp
  ultimately show ?case using nc p q o by simp
qed

text \<open>What the constructors establish.\<close>

lemma Account_init_result:
  assumes "Account_init h0 who bal = Inr (h, self)"
  shows "\<exists>s n b. as_str who = Some s \<and> as_number bal = Some n \<and> float_of n = Inr b \<and>
     \<not> dlt b dzero \<and>
     self = \<lparr>holder = strip s, balance = b, operations_history = next_addr h0\<rparr> \<and>
     h = snd (new_list h0)"
  using assms
  by (auto simp: Account_init_def new_list_def dest: less_than_zero_float
      split: option.splits sum.splits if_splits)

lemma CreditAccount_init_result:
  assumes "CreditAccount_init h0 who bal cl = Inr (h, cself)"
  shows "\<exists>s n b m l. as_str who = Some s \<and> as_number bal = Some n \<and> float_of n = Inr b \<and>
     as_number cl = Some m \<and> float_of m = Inr l \<and> \<not> dlt l dzero \<and> \<not> dlt b (dneg l) \<and>
     cself = \<lparr>holder = strip s, balance = b, operations_history = next_addr h0,
              credit_limit = l\<rparr> \<and>
     h = snd (new_list h0)"
  using assms
  by (auto simp: CreditAccount_init_def new_list_def split: option.splits sum.splits if_splits)

lemma CreditAccount_init_bound:
  assumes "CreditAccount_init h0 who bal cl = Inr (h, cself)" and "wellformed cl"
  shows "within_bound (CreditAccountObj cself)"
proof -
  from CreditAccount_init_result[OF assms(1)] obtain s n b m l where
    r: "as_number cl = Some m" "float_of m = Inr l" "\<not> dlt l dzero" "\<not> dlt b (dneg l)"
      "cself = \<lparr>holder = strip s, balance = b, operations_history = next_addr h0,
              credit_limit = l\<rparr>"
    by blast
  from r(1) have "cl = PyNum m" by (cases cl) auto
  with assms(2) r(2) have "is_double l" by (auto intro: float_of_is_double)
  with r show ?thesis by simp
qed

text \<open>The history of an object: which list \<^verbatim>\<open>get_history\<close> makes of it.\<close>

lemma get_history_loop_operations:
  "get_history_loop (map OperationObj ops) a h =
     (Inr (), h\<lparr>cells := (cells h)(a := cells h a @ map (DictObj \<circ> row_of) ops)\<rparr>)"
proof (induction ops arbitrary: h)
  case Nil
  then show ?case by simp
next
  case (Cons op ops)
  show ?case by (simp add: Cons.IH list_append_def cong: if_cong)
qed

lemma get_history_operations:
  assumes "operations_history self < next_addr h"
    and "cells h (operations_history self) = map OperationObj ops"
  shows "get_history h self =
     (Inr (next_addr h),
      h\<lparr>cells := (cells h)(next_addr h := map (DictObj \<circ> row_of) ops),
        next_addr := Suc (next_addr h)\<rparr>)"
  using assms by (simp add: get_history_def new_list_def get_history_loop_operations)

lemma history_of_operations:
  assumes "history_addr obj < next_addr h"
    and "cells h (history_addr obj) = map OperationObj ops"
  shows "history_of obj h =
     (Inr (next_addr h),
      h\<lparr>cells := (cells h)(next_addr h := map (DictObj \<circ> row_of) ops),
        next_addr := Suc (next_addr h)\<rparr>)"
  using assms by (cases obj) (simp_all add: get_history_operations)

lemma perform_appends:
  assumes "perform now c h obj = (Inr ok, h', obj')"
  shows "history_addr obj' = history_addr obj \<and>
     (\<exists>op. h' = list_append h (history_addr obj) (OperationObj op))"
  using assms
  by (cases c; cases obj)
    (auto simp: method_defs add_operation_def Let_def split: sum.splits if_splits)

text \<open>
  Every account made by a constructor and used through \<^verbatim>\<open>deposit\<close> and \<^verbatim>\<open>withdraw\<close>
  has its history in an allocated list that holds \<^verbatim>\<open>Operation\<close>s only.
\<close>

lemma constructed_history_operations:
  "(Account_init h0 who bal = Inr (h, self) \<longrightarrow>
      history_addr (AccountObj self) < next_addr h \<and>
      cells h (history_addr (AccountObj self)) = map OperationObj []) \<and>
   (CreditAccount_init h0 who bal cl = Inr (hc, cself) \<longrightarrow>
      history_addr (CreditAccountObj cself) < next_addr hc \<and>
      cells hc (history_addr (CreditAccountObj cself)) = map OperationObj [])"
  by (auto dest!: Account_init_result CreditAccount_init_result simp: new_list_def)

lemma perform_history_operations:
  assumes "perform now c h obj = (r, h', obj')"
    and "history_addr obj < next_addr h"
    and "cells h (history_addr obj) = map OperationObj ops"
  shows "history_addr obj' < next_addr h' \<and>
     (\<exists>ops'. cells h' (history_addr obj') = map OperationObj ops')"
proof (cases r)
  case (Inl e)
  with assms have "h' = h \<and> obj' = obj"
    by (cases c; cases obj) (auto simp: method_defs Let_def split: sum.splits if_splits)
  with assms show ?thesis by auto
next
  case (Inr ok)
  with perform_appends[of now c h obj ok h' obj'] assms(1)
  obtain op where "history_addr obj' = history_addr obj"
    "h' = list_append h (history_addr obj) (OperationObj op)"
    by auto
  with assms(2,3) have "history_addr obj' < next_addr h'"
    "cells h' (history_addr obj') = map OperationObj (ops @ [op])"
    by (simp_all add: list_append_def)
  then show ?thesis by blast
qed

lemma run_history_operations:
  "(r, h', obj') \<in> set (run cs h obj) \<Longrightarrow> history_addr obj < next_addr h \<Longrightarrow>
   cells h (history_addr obj) = map OperationObj ops \<Longrightarrow>
     history_addr obj' < next_addr h' \<and>
     (\<exists>ops'. cells h' (history_addr obj') = map OperationObj ops')"
proof (induction cs arbitrary: h obj ops)
  case Nil
  then show ?case by simp
next
  case (Cons nc cs)
  obtain now c where nc: "nc = (now, c)" by (cases nc)
  obtain r1 h1 obj1 where p: "perform now c h obj = (r1, h1, obj1)"
    by (cases "perform now c h obj")
  from perform_history_operations[OF p Cons.prems(2,3)]
  obtain ops1 where w1: "history_addr obj1 < next_addr h1"
    "cells h1 (history_addr obj1) = map OperationObj ops1"
    by blast
  from Cons.prems(1) nc p
  consider "(r, h', obj') = (r1, h1, obj1)" | "(r, h', obj') \<in> set (run cs h1 obj1)"
    by auto
  then show ?case
  proof cases
    case 1
    with w1 show ?thesis by auto
  next
    case 2
    from Cons.IH[OF 2 w1] show ?thesis .
  qed
qed

section \<open>A credit account without credit\<close>

text \<open>
  Claim C10. A credit account constructed with credit limit \<open>0\<close> behaves as the standard
  account constructed with the same holder and initial balance: they hold the same
  holder and balance, and for every sequence of \<^verbatim>\<open>deposit\<close> and \<^verbatim>\<open>withdraw\<close> calls
  (made at the same readings of the clock) every call has the same outcome on both
  (\<^verbatim>\<open>True\<close>, \<^verbatim>\<open>False\<close> or the same exception), leaves the same balance, and leaves
  histories that agree in every field but \<^verbatim>\<open>credit_used\<close>. The credit limit is zero when
  the number passed converts to \<^verbatim>\<open>0.0\<close> or \<^verbatim>\<open>-0.0\<close>.
\<close>

theorem zero_limit_credit_account:
  assumes "Account_init h0 who bal = Inr (ha, self)"
    and "CreditAccount_init h1 who bal cl = Inr (hc, cself)"
    and "as_number cl = Some m" and "float_of m = Inr z" and "is_zero z"
  shows "holder cself = holder self \<and> balance cself = balance self \<and>
    map observe (run cs ha (AccountObj self)) =
    map observe (run cs hc (CreditAccountObj cself))"
proof -
  from Account_init_result[OF assms(1)] obtain s n b where
    a: "as_str who = Some s" "as_number bal = Some n" "float_of n = Inr b"
      "self = \<lparr>holder = strip s, balance = b, operations_history = next_addr h0\<rparr>"
      "ha = snd (new_list h0)"
    by blast
  from CreditAccount_init_result[OF assms(2)] assms(3,4) a(1,2,3)
  have c: "cself = \<lparr>holder = strip s, balance = b, operations_history = next_addr h1,
              credit_limit = z\<rparr>" "hc = snd (new_list h1)"
    by auto
  have l: "is_zero (credit_limit cself)" using c assms(5) by simp
  have v: "visible ha (AccountObj self) = visible hc (CreditAccountObj cself)"
    using a c by (simp add: visible_def new_list_def get_balance_def)
  show ?thesis using run_zero_limit[OF l v] a c by simp
qed

theorem zero_limit_credit_account_witness:
  "Account_init empty_heap (PyStr ivan) (PyNum (PyInt 100)) = Inr (one_list, ivan_account) \<and>
   CreditAccount_init empty_heap (PyStr ivan) (PyNum (PyInt 100)) (PyNum (PyInt 0)) =
     Inr (one_list,
          \<lparr>holder = ivan, balance = dint 100, operations_history = 0, credit_limit = dint 0\<rparr>) \<and>
   as_number (PyNum (PyInt 0)) = Some (PyInt 0) \<and> float_of (PyInt 0) = Inr (dint 0) \<and>
   is_zero (dint 0) \<and>
   map fst (run account_demo one_list (AccountObj ivan_account)) =
     [Inr True, Inr False, Inr True] \<and>
   map observe (run account_demo one_list (AccountObj ivan_account)) =
   map observe (run account_demo one_list
     (CreditAccountObj
        \<lparr>holder = ivan, balance = dint 100, operations_history = 0, credit_limit = dint 0\<rparr>))"
proof -
  have a: "Account_init empty_heap (PyStr ivan) (PyNum (PyInt 100)) = Inr (one_list, ivan_account)"
    by (simp add: Account_init_def strip_def isspace_def new_list_def demo_defs whole_eval)
  have c: "CreditAccount_init empty_heap (PyStr ivan) (PyNum (PyInt 100)) (PyNum (PyInt 0)) =
     Inr (one_list,
          \<lparr>holder = ivan, balance = dint 100, operations_history = 0, credit_limit = dint 0\<rparr>)"
    by (simp add: CreditAccount_init_def strip_def isspace_def new_list_def demo_defs whole_eval)
  have n: "as_number (PyNum (PyInt 0)) = Some (PyInt 0)" by simp
  have f: "float_of (PyInt 0) = Inr (dint 0)" by (simp add: whole_eval)
  have z: "is_zero (dint 0)" by (simp add: whole_eval)
  have o: "map fst (run account_demo one_list (AccountObj ivan_account)) =
     [Inr True, Inr False, Inr True]"
    by (simp add: account_demo_def ivan_account_def method_defs validate_amount_def whole_eval)
  from zero_limit_credit_account [OF a c n f z, of account_demo]
  show ?thesis using a c f z o by simp
qed

section \<open>The history handed to the caller\<close>

text \<open>
  Claim C8. Let the account's history be an allocated list holding the operations
  \<open>ops\<close> (as it is for every account made by a constructor and used through
  \<^verbatim>\<open>deposit\<close> and \<^verbatim>\<open>withdraw\<close>). Then \<^verbatim>\<open>get_history()\<close> returns a new list whose
  content is the rows of \<open>ops\<close> in their order; it changes no list that existed, the
  account's among them, and it assigns to no attribute of the account. A second call
  returns a list of identical content. After one further \<^verbatim>\<open>deposit\<close> or \<^verbatim>\<open>withdraw\<close>
  call that returns (so that one more entry is recorded), the content returned before
  is a strict prefix of the content returned then. Whatever the caller then stores in
  the returned list, the account's history stays as it was, and \<^verbatim>\<open>get_history()\<close>
  still returns the same rows.
\<close>

theorem get_history_rule:
  assumes "history_addr obj < next_addr h"
    and "cells h (history_addr obj) = map OperationObj ops"
  shows "fst (history_of obj h) = Inr (next_addr h) \<and>
    returned_list (history_of obj h) = Some (map (DictObj \<circ> row_of) ops) \<and>
    (\<forall>a<next_addr h. cells (snd (history_of obj h)) a = cells h a) \<and>
    returned_list (history_of obj (snd (history_of obj h))) = returned_list (history_of obj h) \<and>
    (\<forall>now c ok h2 obj2.
       perform now c (snd (history_of obj h)) obj = (Inr ok, h2, obj2) \<longrightarrow>
       (\<exists>rows2. returned_list (history_of obj2 h2) = Some rows2 \<and>
          strict_prefix (map (DictObj \<circ> row_of) ops) rows2)) \<and>
    (\<forall>xs.
       cells ((snd (history_of obj h))
                \<lparr>cells := (cells (snd (history_of obj h)))(next_addr h := xs)\<rparr>)
         (history_addr obj) = cells h (history_addr obj) \<and>
       returned_list (history_of obj
          ((snd (history_of obj h))
             \<lparr>cells := (cells (snd (history_of obj h)))(next_addr h := xs)\<rparr>)) =
         Some (map (DictObj \<circ> row_of) ops))"
proof -
  define rows where "rows = map (DictObj \<circ> row_of) ops"
  define h1 where
    "h1 = h\<lparr>cells := (cells h)(next_addr h := rows), next_addr := Suc (next_addr h)\<rparr>"
  have first: "history_of obj h = (Inr (next_addr h), h1)"
    unfolding h1_def rows_def by (rule history_of_operations[OF assms])
  have alloc1: "history_addr obj < next_addr h1" using assms(1) by (simp add: h1_def)
  have ops1: "cells h1 (history_addr obj) = map OperationObj ops"
    using assms by (simp add: h1_def)
  have one: "returned_list (history_of obj h) = Some rows"
    by (simp add: first returned_list_def h1_def)
  have untouched: "\<forall>a<next_addr h. cells h1 a = cells h a" by (simp add: h1_def)
  have second: "returned_list (history_of obj h1) = Some rows"
    using history_of_operations[OF alloc1 ops1] by (simp add: returned_list_def rows_def)
  have third: "\<exists>rows2. returned_list (history_of obj2 h2) = Some rows2 \<and> strict_prefix rows rows2"
    if p: "perform now c h1 obj = (Inr ok, h2, obj2)" for now c ok h2 obj2
  proof -
    from perform_appends[OF p] obtain op where
      a2: "history_addr obj2 = history_addr obj" and
      h2: "h2 = list_append h1 (history_addr obj) (OperationObj op)"
      by blast
    have alloc2: "history_addr obj2 < next_addr h2"
      using alloc1 a2 h2 by (simp add: list_append_def)
    have ops2: "cells h2 (history_addr obj2) = map OperationObj (ops @ [op])"
      using ops1 a2 h2 by (simp add: list_append_def)
    from history_of_operations[OF alloc2 ops2]
    show ?thesis by (simp add: returned_list_def rows_def strict_prefix_def)
  qed
  have fourth: "cells (h1\<lparr>cells := (cells h1)(next_addr h := xs)\<rparr>) (history_addr obj) =
        cells h (history_addr obj) \<and>
      returned_list (history_of obj (h1\<lparr>cells := (cells h1)(next_addr h := xs)\<rparr>)) = Some rows"
    for xs
  proof -
    let ?hm = "h1\<lparr>cells := (cells h1)(next_addr h := xs)\<rparr>"
    have allocm: "history_addr obj < next_addr ?hm" using assms(1) by (simp add: h1_def)
    have opsm: "cells ?hm (history_addr obj) = map OperationObj ops"
      using assms by (simp add: h1_def)
    from history_of_operations[OF allocm opsm] assms(1)
    show ?thesis by (simp add: returned_list_def h1_def rows_def)
  qed
  show ?thesis
    unfolding rows_def[symmetric]
    using first one second third fourth untouched by simp
qed

theorem get_history_rule_witness:
  "history_addr (AccountObj (ivan_account\<lparr>balance := dint 150\<rparr>)) <
     next_addr (list_append one_list 0 (OperationObj first_entry)) \<and>
   cells (list_append one_list 0 (OperationObj first_entry))
     (history_addr (AccountObj (ivan_account\<lparr>balance := dint 150\<rparr>))) =
     map OperationObj [first_entry] \<and>
   deposit noon one_list (AccountObj ivan_account) (PyNum (PyInt 50)) =
     (Inr True, list_append one_list 0 (OperationObj first_entry),
      AccountObj (ivan_account\<lparr>balance := dint 150\<rparr>)) \<and>
   fst (history_of (AccountObj (ivan_account\<lparr>balance := dint 150\<rparr>))
     (list_append one_list 0 (OperationObj first_entry))) = Inr 1 \<and>
   returned_list (history_of (AccountObj (ivan_account\<lparr>balance := dint 150\<rparr>))
     (list_append one_list 0 (OperationObj first_entry))) = Some [DictObj first_row]"
proof -
  let ?obj = "AccountObj (ivan_account\<lparr>balance := dint 150\<rparr>)"
  let ?h = "list_append one_list 0 (OperationObj first_entry)"
  have a: "history_addr ?obj < next_addr ?h"
    by (simp add: ivan_account_def list_append_def one_list_def new_list_def empty_heap_def)
  have c: "cells ?h (history_addr ?obj) = map OperationObj [first_entry]"
    by (simp add: ivan_account_def list_append_def one_list_def new_list_def empty_heap_def)
  have d: "deposit noon one_list (AccountObj ivan_account) (PyNum (PyInt 50)) =
      (Inr True, ?h, ?obj)"
    by (simp add: Account_deposit_def validate_amount_def add_operation_def first_entry_def
        ivan_account_def whole_eval)
  have t: "isoformat noon =
      [50, 48, 50, 52, 45, 48, 53, 45, 49, 55, 32, 49, 50, 58, 48, 48, 58, 48, 48]"
    by code_simp
  have r: "row_of first_entry = first_row"
    by (simp add: row_of_def first_entry_def first_row_def t)
  have n: "next_addr ?h = 1"
    by (simp add: list_append_def one_list_def new_list_def empty_heap_def)
  from get_history_rule [OF a c]
  show ?thesis using a c d r n by simp
qed

end
